theory Spec2Isabelle
  imports Complex_Main "HOL-Library.Word"
begin

unbundle bit_operations_syntax

section \<open>Image kernels of img\_blur\_fusion.metal\<close>

text \<open>
  The kernels are embedded one work item at a time. A device buffer is a function from
  the element offset (relative to the buffer's base pointer) to the element: the kernels
  do pointer arithmetic without any bounds check, so an access at any offset is
  expressible and a write outside the logical image is visible in the model.

  A work item whose output depends only on read-only inputs is a function from the
  inputs and the invocation index to the list of stores it performs, in program order;
  a dispatch applies the stores of all its work items. \<open>GaussianBlur\<close>, which reads
  back its own output, passes the output buffer as state.

  Modelling conventions:
  \<^item> \<open>float\<close> is modelled by \<open>real\<close>: arithmetic is exact, rounding error of the
    binary format is outside the model. Values of type \<open>uchar\<close> are exact in both.
  \<^item> \<open>int\<close> is modelled by the unbounded \<open>int\<close>; image sizes are taken to be within
    the range where the 24-bit multiplications \<open>mad24\<close>/\<open>mul24\<close> and the 32-bit sums
    are exact.
  \<^item> \<open>uint\<close> and \<open>uchar\<close> are \<open>32 word\<close> and \<open>8 word\<close>.
\<close>

subsection \<open>Scalar types and conversions\<close>

type_synonym uint = "32 word"
type_synonym uchar = "8 word"
type_synonym 'a buffer = "int \<Rightarrow> 'a"

record float4 =
  f_x :: real
  f_y :: real
  f_z :: real
  f_w :: real

record uchar4 =
  c_x :: uchar
  c_y :: uchar
  c_z :: uchar
  c_w :: uchar

text \<open>Conversion of a float to an integer type truncates toward zero (\<open>(int)\<close>,
  \<open>convert_int2\<close>).\<close>

definition convert_int :: "real \<Rightarrow> int" where
  "convert_int r = (if 0 \<le> r then \<lfloor>r\<rfloor> else \<lceil>r\<rceil>)"

text \<open>\<open>(uint)f\<close> and the implicit conversion of a float to \<open>uchar\<close>: truncation
  toward zero. The language defines the result only when the truncated value fits the
  target type; outside that range the model keeps the low bits of the truncated integer.\<close>

definition float_to_uint :: "real \<Rightarrow> uint" where
  "float_to_uint r = word_of_int (convert_int r)"

definition float_to_uchar :: "real \<Rightarrow> uchar" where
  "float_to_uchar r = word_of_int (convert_int r)"

definition uchar_to_float :: "uchar \<Rightarrow> real" where
  "uchar_to_float c = real (unat c)"

text \<open>C integer division truncates toward zero.\<close>

definition c_div :: "int \<Rightarrow> int \<Rightarrow> int" where
  "c_div a b = sgn a * sgn b * (\<bar>a\<bar> div \<bar>b\<bar>)"

definition mad24 :: "int \<Rightarrow> int \<Rightarrow> int \<Rightarrow> int" where
  "mad24 a b c = a * b + c"



definition CONFIG_WIDTH :: nat where "CONFIG_WIDTH = 0"
definition CONFIG_HEIGHT :: nat where "CONFIG_HEIGHT = 1"
definition CONFIG_X :: nat where "CONFIG_X = 2"
definition CONFIG_Y :: nat where "CONFIG_Y = 3"
definition CONFIG_HALF_W :: nat where "CONFIG_HALF_W = 4"
definition CONFIG_WH :: nat where "CONFIG_WH = 5"
definition RECT_KX :: nat where "RECT_KX = 0"
definition RECT_KY :: nat where "RECT_KY = 1"

subsection \<open>float4 arithmetic\<close>






subsection \<open>Stores and dispatch\<close>

text \<open>A store is a pair of an address and a value; \<open>apply_writes\<close> performs a sequence
  of stores, a later store to an address overwriting an earlier one.\<close>

definition apply_writes :: "('k \<Rightarrow> 'v) \<Rightarrow> ('k \<times> 'v) list \<Rightarrow> ('k \<Rightarrow> 'v)" where
  "apply_writes m ws = foldl (\<lambda>m' kv. m'(fst kv := snd kv)) m ws"

text \<open>A dispatch runs the work items of the schedule \<open>ts\<close>; the inputs are read-only,
  so the stores of one work item do not depend on those of another.\<close>

definition dispatch :: "('t \<Rightarrow> ('k \<times> 'v) list) \<Rightarrow> 't list \<Rightarrow> ('k \<Rightarrow> 'v) \<Rightarrow> ('k \<Rightarrow> 'v)" where
  "dispatch work_item ts m = apply_writes m (concat (map work_item ts))"

text \<open>\<open>vload4(n, p)\<close> reads the four bytes \<open>p[4n .. 4n+3]\<close>; a store through a
  \<open>uchar4*\<close> at element \<open>i\<close> writes the bytes \<open>4i .. 4i+3\<close>.\<close>

definition vload4 :: "int \<Rightarrow> uchar buffer \<Rightarrow> uchar4" where
  "vload4 n p = \<lparr>c_x = p (4 * n), c_y = p (4 * n + 1), c_z = p (4 * n + 2), c_w = p (4 * n + 3)\<rparr>"

definition store4 :: "int \<Rightarrow> uchar4 \<Rightarrow> (int \<times> uchar) list" where
  "store4 i v = [(4 * i, c_x v), (4 * i + 1, c_y v), (4 * i + 2, c_z v), (4 * i + 3, c_w v)]"

subsection \<open>Packed pixels\<close>

definition dataUchar4ToFloat4 :: "uint \<Rightarrow> float4" where
  "dataUchar4ToFloat4 uiPacked =
     \<lparr> f_x = real (unat (uiPacked AND 0xff)),
       f_y = real (unat (drop_bit 8 uiPacked AND 0xff)),
       f_z = real (unat (drop_bit 16 uiPacked AND 0xff)),
       f_w = real (unat (drop_bit 24 uiPacked AND 0xff)) \<rparr>"

definition dataFloat4ToUchar4 :: "float4 \<Rightarrow> uint" where
  "dataFloat4ToUchar4 data_f4 =
     (let uiPacked = 0;
          uiPacked = uiPacked OR (0x000000FF AND float_to_uint (f_x data_f4));
          uiPacked = uiPacked OR (0x0000FF00 AND push_bit 8 (float_to_uint (f_y data_f4)));
          uiPacked = uiPacked OR (0x00FF0000 AND push_bit 16 (float_to_uint (f_z data_f4)));
          uiPacked = uiPacked OR (0xFF000000 AND push_bit 24 (float_to_uint (f_w data_f4)))
      in uiPacked)"

text \<open>Rounding to nearest and clamping to \<open>[0,255]\<close>, as the data model's sentence on
  conversions words it; used only to compare \<open>dataFloat4ToUchar4\<close> against it.\<close>

definition spec_round_clamp :: "real \<Rightarrow> nat" where
  "spec_round_clamp r = (if r < 0 then 0 else if 255 < r then 255 else nat \<lfloor>r + 1 / 2\<rfloor>)"

subsection \<open>Transpose\<close>






subsection \<open>GaussianBlur\<close>











subsection \<open>Fusion\<close>





subsection \<open>ResizeBillinear\<close>



text \<open>The contract of the resize in the design's words: source coordinate, floor and
  fraction, clamp of the base index with the fraction zeroed, clamp of the neighbour
  index, the four weights, rounding by adding one half, clamp to \<open>[0,255]\<close>, truncation.\<close>

definition spec_clamp_index :: "int \<Rightarrow> real \<Rightarrow> int \<Rightarrow> int \<times> real" where
  "spec_clamp_index i fr n =
     (if 0 \<le> i \<and> i \<le> n - 1 then (i, fr) else (max 0 (min (n - 1) i), 0))"


subsection \<open>NV12 and I420 conversion\<close>

text \<open>The three planes of an I420 image are three device buffers; the stores of a
  conversion to I420 name the plane they go to.\<close>

datatype plane = Plane_Y | Plane_U | Plane_V

definition ScaleConvert_NV12_I420 ::
  "uchar buffer \<Rightarrow> int list \<Rightarrow> int list \<Rightarrow> real list \<Rightarrow> nat \<times> nat
     \<Rightarrow> ((plane \<times> int) \<times> uchar) list" where
  "ScaleConvert_NV12_I420 src srcConfig dstConfig RectConfig idx =
     (let nowCoordinate_x = int (fst idx);
          nowCoordinate_y = int (snd idx);
          srcCoordinate_x = real_of_int (srcConfig ! CONFIG_X)
                            + real_of_int nowCoordinate_x * RectConfig ! RECT_KX;
          srcCoordinate_y = real_of_int (srcConfig ! CONFIG_Y)
                            + real_of_int nowCoordinate_y * RectConfig ! RECT_KY;
          dstCoordinate_x = nowCoordinate_x + dstConfig ! CONFIG_X;
          dstCoordinate_y = nowCoordinate_y + dstConfig ! CONFIG_Y;
          srcIntCoordinate_x = convert_int srcCoordinate_x;
          srcIntCoordinate_y = convert_int srcCoordinate_y;
          decimal_x = srcCoordinate_x - real_of_int srcIntCoordinate_x;
          decimal_y = srcCoordinate_y - real_of_int srcIntCoordinate_y;
          srcNum = mad24 srcIntCoordinate_y (srcConfig ! CONFIG_WIDTH) srcIntCoordinate_x;
          dstNum = mad24 dstCoordinate_y (dstConfig ! CONFIG_WIDTH) dstCoordinate_x;
          x00 = src srcNum;
          x10 = src (srcNum + 1);
          x01 = src (srcNum + srcConfig ! CONFIG_WIDTH);
          x11 = src (srcNum + srcConfig ! CONFIG_WIDTH + 1);
          x00 = float_to_uchar (uchar_to_float x00
                  + (uchar_to_float x01 - uchar_to_float x00) * decimal_y);
          x10 = float_to_uchar (uchar_to_float x10
                  + (uchar_to_float x11 - uchar_to_float x10) * decimal_y);
          x00 = float_to_uchar (uchar_to_float x00
                  + (uchar_to_float x10 - uchar_to_float x00) * decimal_x);
          luma = [((Plane_Y, dstNum), x00)]
      in if dstCoordinate_x mod 2 = 0 \<and> dstCoordinate_y mod 2 = 0 then
           let srcIntCoordinate_x = srcIntCoordinate_x AND (- 2);
               srcIntCoordinate_y = srcIntCoordinate_y AND (- 2);
               srcUVnum = mad24 (srcConfig ! CONFIG_HALF_W) srcIntCoordinate_y
                            (srcIntCoordinate_x + srcConfig ! CONFIG_WH);
               color_x = src srcUVnum;
               color_y = src (srcUVnum + 1);
               nowUNum = mad24 (c_div (dstConfig ! CONFIG_WIDTH) 4) dstCoordinate_y
                           (c_div dstCoordinate_x 2)
           in luma @ [((Plane_U, nowUNum), color_x), ((Plane_V, nowUNum), color_y)]
         else luma)"

text \<open>The fast variant. Its guard compares the row with \<open>dstConfig[CONFIG_WIDTH]\<close>.
  The mask \<open>0xfffffffe\<close> clears bit 0; on two's complement integers that is the
  conjunction with \<open>-2\<close>. A test \<open>c % 2 == 0\<close> holds for the truncating remainder of C
  exactly when it holds for \<open>mod\<close>.\<close>

definition NV12_I420 ::
  "uchar buffer \<Rightarrow> int list \<Rightarrow> int list \<Rightarrow> real list \<Rightarrow> nat \<times> nat
     \<Rightarrow> ((plane \<times> int) \<times> uchar) list" where
  "NV12_I420 src srcConfig dstConfig RectConfig idx =
     (let nowCoordinate_x = int (fst idx);
          nowCoordinate_y = int (snd idx);
          srcCoordinate_x = real_of_int (srcConfig ! CONFIG_X)
                            + real_of_int nowCoordinate_x * RectConfig ! RECT_KX;
          srcCoordinate_y = real_of_int (srcConfig ! CONFIG_Y)
                            + real_of_int nowCoordinate_y * RectConfig ! RECT_KY
      in if nowCoordinate_y \<ge> dstConfig ! CONFIG_WIDTH then []
         else
           let dstCoordinate_x = nowCoordinate_x + dstConfig ! CONFIG_X;
               dstCoordinate_y = nowCoordinate_y + dstConfig ! CONFIG_Y;
               srcIntCoordinate_x = convert_int srcCoordinate_x;
               srcIntCoordinate_y = convert_int srcCoordinate_y;
               srcNum = mad24 srcIntCoordinate_y (srcConfig ! CONFIG_WIDTH) srcIntCoordinate_x;
               dstNum = mad24 dstCoordinate_y (dstConfig ! CONFIG_WIDTH) dstCoordinate_x;
               x00 = src srcNum;
               luma = [((Plane_Y, dstNum), x00)]
           in if dstCoordinate_x mod 2 = 0 \<and> dstCoordinate_y mod 2 = 0 then
                let srcIntCoordinate_x = srcIntCoordinate_x AND (- 2);
                    srcIntCoordinate_y = srcIntCoordinate_y AND (- 2);
                    srcUVnum = mad24 (srcConfig ! CONFIG_HALF_W) srcIntCoordinate_y
                                 (srcIntCoordinate_x + srcConfig ! CONFIG_WH);
                    color_x = src srcUVnum;
                    color_y = src (srcUVnum + 1);
                    nowUNum = mad24 (c_div (dstConfig ! CONFIG_WIDTH) 4) dstCoordinate_y
                                (c_div dstCoordinate_x 2)
                in luma @ [((Plane_U, nowUNum), color_x), ((Plane_V, nowUNum), color_y)]
              else luma)"

definition I420_NV12 ::
  "uchar buffer \<Rightarrow> uchar buffer \<Rightarrow> uchar buffer \<Rightarrow> int list \<Rightarrow> int list \<Rightarrow> real list
     \<Rightarrow> nat \<times> nat \<Rightarrow> (int \<times> uchar) list" where
  "I420_NV12 srcy srcu srcv srcConfig dstConfig RectConfig idx =
     (let nowCoordinate_x = int (fst idx);
          nowCoordinate_y = int (snd idx)
      in if nowCoordinate_y \<ge> srcConfig ! CONFIG_HEIGHT then []
         else if nowCoordinate_x \<ge> srcConfig ! CONFIG_WIDTH then []
         else
           let srcCoordinate_x = real_of_int (srcConfig ! CONFIG_X)
                                 + real_of_int nowCoordinate_x * RectConfig ! RECT_KX;
               srcCoordinate_y = real_of_int (srcConfig ! CONFIG_Y)
                                 + real_of_int nowCoordinate_y * RectConfig ! RECT_KY;
               dstCoordinate_x = nowCoordinate_x + dstConfig ! CONFIG_X;
               dstCoordinate_y = nowCoordinate_y + dstConfig ! CONFIG_Y;
               srcIntCoordinate_x = convert_int srcCoordinate_x;
               srcIntCoordinate_y = convert_int srcCoordinate_y;
               srcNum = mad24 srcIntCoordinate_y (srcConfig ! CONFIG_WIDTH) srcIntCoordinate_x;
               dstNum = mad24 dstCoordinate_y (dstConfig ! CONFIG_WIDTH) dstCoordinate_x;
               x00 = srcy srcNum;
               luma = [(dstNum, x00)]
           in if dstCoordinate_x mod 2 = 0 \<and> dstCoordinate_y mod 2 = 0 then
                let srcIntCoordinate_x = srcIntCoordinate_x AND (- 2);
                    srcIntCoordinate_y = srcIntCoordinate_y AND (- 2);
                    nowUNum = mad24 (c_div (srcConfig ! CONFIG_WIDTH) 4) srcIntCoordinate_y
                                (c_div srcIntCoordinate_x 2);
                    color_x = srcu nowUNum;
                    color_y = srcv nowUNum;
                    dstUVnum = mad24 (dstConfig ! CONFIG_HALF_W) dstCoordinate_y
                                 (dstCoordinate_x + dstConfig ! CONFIG_WH)
                in luma @ [(dstUVnum, color_x), (dstUVnum + 1, color_y)]
              else luma)"

text \<open>The configuration array of a tightly packed \<open>W\<close> by \<open>H\<close> image with zero origin
  (width, height, x, y, half width, offset of the chroma plane), and the identity
  rectangle transform.\<close>

definition image_config :: "int \<Rightarrow> int \<Rightarrow> int list" where
  "image_config W H = [W, H, 0, 0, c_div W 2, W * H]"

definition identity_rect :: "real list" where
  "identity_rect = [1, 1, 1, 1, 1]"

text \<open>The grid of \<open>W\<close> by \<open>H\<close> work items, one per pixel.\<close>

definition pixel_grid :: "int \<Rightarrow> int \<Rightarrow> (nat \<times> nat) list" where
  "pixel_grid W H = List.product [0..<nat W] [0..<nat H]"

subsection \<open>Padding\<close>

text \<open>The row loop \<open>for (i = lo; i < hi; i++) *(dst_4 + i) = v i\<close>.\<close>

definition store4_loop :: "int \<Rightarrow> int \<Rightarrow> (int \<Rightarrow> uchar4) \<Rightarrow> (int \<times> uchar) list" where
  "store4_loop lo hi v = concat (map (\<lambda>i. store4 i (v i)) [lo..hi - 1])"

definition zero4 :: uchar4 where
  "zero4 = \<lparr>c_x = 0, c_y = 0, c_z = 0, c_w = 0\<rparr>"

definition NV12_Remove_Padding ::
  "uchar buffer \<Rightarrow> int \<Rightarrow> int \<Rightarrow> int \<Rightarrow> int \<Rightarrow> nat \<Rightarrow> (int \<times> uchar) list" where
  "NV12_Remove_Padding src width height owidth oheight idx =
     (let id = int idx
      in if id > oheight - 1 then []
         else
           let index_dst = id * owidth;
               id = (if id > c_div (oheight * 2) 3 - 1
                     then id + c_div ((height - oheight) * 2) 3 else id);
               index_src = id * width
           in store4_loop (drop_bit 2 index_dst) (drop_bit 2 (index_dst + owidth))
                (\<lambda>i. vload4 (drop_bit 2 index_src + i - drop_bit 2 index_dst) src))"

definition NV12_Add_Padding ::
  "uchar buffer \<Rightarrow> int \<Rightarrow> int \<Rightarrow> int \<Rightarrow> int \<Rightarrow> nat \<Rightarrow> (int \<times> uchar) list" where
  "NV12_Add_Padding src width height owidth oheight idx =
     (let id = int idx;
          Y_height = c_div (height * 2) 3;
          Y_padding_lines = c_div ((oheight - height) * 2) 3
      in if id > oheight - 1 then []
         else
           let index_dst = id * owidth
           in if (id \<ge> Y_height \<and> id < Y_height + Y_padding_lines)
                 \<or> id > height + Y_padding_lines - 1
              then store4_loop (drop_bit 2 index_dst) (drop_bit 2 (index_dst + owidth))
                     (\<lambda>i. zero4)
              else
                let id = (if id \<ge> Y_height + Y_padding_lines then id - Y_padding_lines else id);
                    index_src = id * width
                in store4_loop (drop_bit 2 index_dst) (drop_bit 2 (index_dst + width))
                     (\<lambda>i. vload4 (drop_bit 2 index_src + i - drop_bit 2 index_dst) src)
                   @ (if owidth > width
                      then store4_loop (drop_bit 2 (index_dst + width))
                             (drop_bit 2 (index_dst + owidth)) (\<lambda>i. zero4)
                      else []))"

section \<open>Verification\<close>

section \<open>Verification\<close>

subsection \<open>Stores\<close>

lemma apply_writes_Nil: "apply_writes m [] = m"
  by (simp add: apply_writes_def)

lemma apply_writes_snoc:
  "apply_writes m (ws @ [kv]) = (apply_writes m ws)(fst kv := snd kv)"
  by (simp add: apply_writes_def)

lemma apply_writes_untouched:
  "a \<notin> fst ` set ws \<Longrightarrow> apply_writes m ws a = m a"
  by (induction ws rule: rev_induct) (auto simp: apply_writes_snoc apply_writes_Nil)

lemma apply_writes_determined:
  assumes "(a, v) \<in> set ws"
    and "\<And>v'. (a, v') \<in> set ws \<Longrightarrow> v' = v"
  shows "apply_writes m ws a = v"
  using assms
proof (induction ws rule: rev_induct)
  case Nil
  then show ?case by simp
next
  case (snoc kv ws)
  show ?case
  proof (cases "fst kv = a")
    case True
    then have "(a, snd kv) \<in> set (ws @ [kv])"
      by (metis in_set_conv_decomp prod.collapse)
    then have "snd kv = v" by (rule snoc.prems(2))
    with True show ?thesis by (simp add: apply_writes_snoc)
  next
    case False
    with snoc.prems(1) have in_ws: "(a, v) \<in> set ws" by auto
    have "apply_writes m ws a = v"
      by (rule snoc.IH [OF in_ws]) (simp add: snoc.prems(2))
    with False show ?thesis by (simp add: apply_writes_snoc)
  qed
qed

lemma dispatch_determined:
  assumes t: "t \<in> set ts" and w: "(a, v) \<in> set (work t)"
    and same: "\<And>t' v'. t' \<in> set ts \<Longrightarrow> (a, v') \<in> set (work t') \<Longrightarrow> v' = v"
  shows "dispatch work ts m a = v"
  unfolding dispatch_def
proof (rule apply_writes_determined)
  show "(a, v) \<in> set (concat (map work ts))"
    using t w by (simp only: set_concat set_map) blast
next
  fix v' assume "(a, v') \<in> set (concat (map work ts))"
  then obtain t' where "t' \<in> set ts" "(a, v') \<in> set (work t')"
    by (simp only: set_concat set_map) blast
  then show "v' = v" by (rule same)
qed

lemma dispatch_untouched:
  assumes none: "\<And>t v. t \<in> set ts \<Longrightarrow> (a, v) \<notin> set (work t)"
  shows "dispatch work ts m a = m a"
  unfolding dispatch_def
proof (rule apply_writes_untouched)
  show "a \<notin> fst ` set (concat (map work ts))"
  proof
    assume "a \<in> fst ` set (concat (map work ts))"
    then obtain v where "(a, v) \<in> set (concat (map work ts))" by force
    then obtain t where "t \<in> set ts" "(a, v) \<in> set (work t)"
      by (simp only: set_concat set_map) blast
    with none show False by blast
  qed
qed

subsection \<open>Packed pixels\<close>

lemma byte_masks:
  "(0xFF::uint) = mask 8" "(0xFF00::uint) = push_bit 8 (mask 8)"
  "(0xFF0000::uint) = push_bit 16 (mask 8)" "(0xFF000000::uint) = push_bit 24 (mask 8)"
  by (simp_all add: mask_eq_exp_minus_1 push_bit_eq_mult)

lemma pack_bytes:
  fixes a b c d :: uint
  defines "p \<equiv> (((mask 8 AND a) OR (push_bit 8 (mask 8) AND push_bit 8 b))
                 OR (push_bit 16 (mask 8) AND push_bit 16 c))
                 OR (push_bit 24 (mask 8) AND push_bit 24 d)"
  shows "p AND mask 8 = a AND mask 8"
    and "drop_bit 8 p AND mask 8 = b AND mask 8"
    and "drop_bit 16 p AND mask 8 = c AND mask 8"
    and "drop_bit 24 p AND mask 8 = d AND mask 8"
  unfolding p_def
  by (rule bit_word_eqI; auto simp add: bit_simps)+

lemma pack_channels:
  "dataFloat4ToUchar4 f AND mask 8 = float_to_uint (f_x f) AND mask 8"
  "drop_bit 8 (dataFloat4ToUchar4 f) AND mask 8 = float_to_uint (f_y f) AND mask 8"
  "drop_bit 16 (dataFloat4ToUchar4 f) AND mask 8 = float_to_uint (f_z f) AND mask 8"
  "drop_bit 24 (dataFloat4ToUchar4 f) AND mask 8 = float_to_uint (f_w f) AND mask 8"
  unfolding dataFloat4ToUchar4_def Let_def byte_masks or.left_neutral
  by (rule pack_bytes)+

lemma uint_low_byte: "uint (float_to_uint r AND mask 8) = convert_int r mod 256"
proof -
  have "uint (float_to_uint r AND mask 8) = take_bit 8 (uint (float_to_uint r))"
    by (simp only: take_bit_eq_mask [symmetric] unsigned_take_bit_eq)
  also have "\<dots> = take_bit 8 (take_bit 32 (convert_int r))"
    by (simp add: float_to_uint_def uint_word_of_int take_bit_eq_mod)
  also have "\<dots> = take_bit 8 (convert_int r)"
    by (simp only: take_bit_take_bit)
  also have "\<dots> = convert_int r mod 256"
    by (simp add: take_bit_eq_mod)
  finally show ?thesis .
qed

lemma word_eq_bytes:
  fixes a b :: uint
  assumes b0: "a AND mask 8 = b AND mask 8"
    and b1: "drop_bit 8 a AND mask 8 = drop_bit 8 b AND mask 8"
    and b2: "drop_bit 16 a AND mask 8 = drop_bit 16 b AND mask 8"
    and b3: "drop_bit 24 a AND mask 8 = drop_bit 24 b AND mask 8"
  shows "a = b"
proof (rule bit_word_eqI)
  fix n assume "n < LENGTH(32)"
  then have n: "n < 32" by simp
  consider "n < 8" | "8 \<le> n" "n < 16" | "16 \<le> n" "n < 24" | "24 \<le> n" "n < 32"
    using n by linarith
  then show "bit a n = bit b n"
  proof cases
    case 1
    from b0 have "bit (a AND mask 8) n = bit (b AND mask 8) n" by simp
    with 1 show ?thesis by (simp add: bit_and_iff bit_mask_iff)
  next
    case 2
    from b1 have "bit (drop_bit 8 a AND mask 8) (n - 8) = bit (drop_bit 8 b AND mask 8) (n - 8)"
      by simp
    moreover from 2 have "n - 8 < 8" by linarith
    ultimately show ?thesis using 2 by (simp add: bit_and_iff bit_mask_iff bit_drop_bit_eq)
  next
    case 3
    from b2 have "bit (drop_bit 16 a AND mask 8) (n - 16) = bit (drop_bit 16 b AND mask 8) (n - 16)"
      by simp
    moreover from 3 have "n - 16 < 8" by linarith
    ultimately show ?thesis using 3 by (simp add: bit_and_iff bit_mask_iff bit_drop_bit_eq)
  next
    case 4
    from b3 have "bit (drop_bit 24 a AND mask 8) (n - 24) = bit (drop_bit 24 b AND mask 8) (n - 24)"
      by simp
    moreover from 4 have "n - 24 < 8" by linarith
    ultimately show ?thesis using 4 by (simp add: bit_and_iff bit_mask_iff bit_drop_bit_eq)
  qed
qed

lemma convert_int_of_nat: "convert_int (real n) = int n"
  unfolding convert_int_def by (simp only: of_nat_0_le_iff if_True floor_of_nat)

lemma float_to_uint_of_word: "float_to_uint (real (unat (b :: uint))) = b"
  unfolding float_to_uint_def convert_int_of_nat by simp

lemma unat_low_byte: "unat (float_to_uint (real (unat (b::uint))) AND mask 8) = unat (b AND mask 8)"
  by (simp only: float_to_uint_of_word)

lemma mask_byte_idem: "((u::uint) AND mask 8) AND mask 8 = u AND mask 8"
  by (simp add: and.assoc)

lemma pack_unpack: "dataFloat4ToUchar4 (dataUchar4ToFloat4 u) = u"
proof (rule word_eq_bytes)
  show "dataFloat4ToUchar4 (dataUchar4ToFloat4 u) AND mask 8 = u AND mask 8"
    unfolding pack_channels dataUchar4ToFloat4_def float4.simps float_to_uint_of_word byte_masks
    by (rule mask_byte_idem)
  show "drop_bit 8 (dataFloat4ToUchar4 (dataUchar4ToFloat4 u)) AND mask 8 = drop_bit 8 u AND mask 8"
    unfolding pack_channels dataUchar4ToFloat4_def float4.simps float_to_uint_of_word byte_masks
    by (rule mask_byte_idem)
  show "drop_bit 16 (dataFloat4ToUchar4 (dataUchar4ToFloat4 u)) AND mask 8 = drop_bit 16 u AND mask 8"
    unfolding pack_channels dataUchar4ToFloat4_def float4.simps float_to_uint_of_word byte_masks
    by (rule mask_byte_idem)
  show "drop_bit 24 (dataFloat4ToUchar4 (dataUchar4ToFloat4 u)) AND mask 8 = drop_bit 24 u AND mask 8"
    unfolding pack_channels dataUchar4ToFloat4_def float4.simps float_to_uint_of_word byte_masks
    by (rule mask_byte_idem)
qed

lemma unat_byte_le: "unat ((u::uint) AND mask 8) \<le> 255"
proof -
  have "unat (u AND mask 8) = take_bit 8 (unat u)"
    by (simp only: take_bit_eq_mask [symmetric] unsigned_take_bit_eq)
  moreover have "take_bit 8 (unat u) < 2 ^ 8"
    by (rule take_bit_nat_less_exp)
  ultimately show ?thesis by simp
qed

lemma real_byte_range: "0 \<le> real (unat ((u::uint) AND mask 8)) \<and> real (unat (u AND mask 8)) \<le> 255"
proof -
  have "real (unat (u AND mask 8)) \<le> real 255"
    by (rule iffD2 [OF of_nat_le_iff]) (rule unat_byte_le)
  then have "real (unat (u AND mask 8)) \<le> 255"
    by (simp only: of_nat_numeral)
  moreover have "0 \<le> real (unat (u AND mask 8))"
    by (rule of_nat_0_le_iff)
  ultimately show ?thesis by (intro conjI)
qed

lemma unpack_range:
  "0 \<le> f_x (dataUchar4ToFloat4 u) \<and> f_x (dataUchar4ToFloat4 u) \<le> 255"
  "0 \<le> f_y (dataUchar4ToFloat4 u) \<and> f_y (dataUchar4ToFloat4 u) \<le> 255"
  "0 \<le> f_z (dataUchar4ToFloat4 u) \<and> f_z (dataUchar4ToFloat4 u) \<le> 255"
  "0 \<le> f_w (dataUchar4ToFloat4 u) \<and> f_w (dataUchar4ToFloat4 u) \<le> 255"
  unfolding dataUchar4ToFloat4_def byte_masks float4.simps
  by (rule real_byte_range)+


lemma in_range_byte:
  assumes "0 \<le> v" "v < 256"
  shows "convert_int v mod 256 = \<lfloor>v\<rfloor>"
proof -
  have "0 \<le> \<lfloor>v\<rfloor>" using assms(1) by simp
  moreover have "\<lfloor>v\<rfloor> < 256" using assms(2) by (simp add: floor_less_iff)
  ultimately show ?thesis using assms(1) by (simp add: convert_int_def)
qed

text \<open>
  Claim C9 as stated (every conversion rounds to nearest and clamps to \<open>[0,255]\<close>)
  fails for \<open>dataFloat4ToUchar4\<close>: a channel of 300 is stored as 44, not 255, and a
  channel of 127.5 is stored as 127, not 128.
\<close>

theorem dataFloat4ToUchar4_not_round_clamp:
  "uint (dataFloat4ToUchar4 \<lparr>f_x = 300, f_y = 255 / 2, f_z = 0, f_w = 0\<rparr> AND 0xFF) = 44
   \<and> spec_round_clamp 300 = 255
   \<and> uint (drop_bit 8 (dataFloat4ToUchar4 \<lparr>f_x = 300, f_y = 255 / 2, f_z = 0, f_w = 0\<rparr>) AND 0xFF) = 127
   \<and> spec_round_clamp (255 / 2) = 128"
  unfolding byte_masks(1) pack_channels uint_low_byte
  by (simp add: convert_int_def spec_round_clamp_def)

text \<open>
  Claim C9, amended. The channels of a packed pixel are always in \<open>[0,255]\<close>:
  unpacking any word gives four channels in that range, and packing them again gives the
  word back. \<open>dataFloat4ToUchar4\<close> truncates: a channel in \<open>[0,256)\<close> is stored as its
  floor, without rounding.
\<close>

theorem packed_channels_truncated:
  "(0 \<le> f_x (dataUchar4ToFloat4 u) \<and> f_x (dataUchar4ToFloat4 u) \<le> 255)
   \<and> (0 \<le> f_y (dataUchar4ToFloat4 u) \<and> f_y (dataUchar4ToFloat4 u) \<le> 255)
   \<and> (0 \<le> f_z (dataUchar4ToFloat4 u) \<and> f_z (dataUchar4ToFloat4 u) \<le> 255)
   \<and> (0 \<le> f_w (dataUchar4ToFloat4 u) \<and> f_w (dataUchar4ToFloat4 u) \<le> 255)
   \<and> dataFloat4ToUchar4 (dataUchar4ToFloat4 u) = u
   \<and> (0 \<le> f_x f \<and> f_x f < 256 \<longrightarrow> uint (dataFloat4ToUchar4 f AND 0xFF) = \<lfloor>f_x f\<rfloor>)
   \<and> (0 \<le> f_y f \<and> f_y f < 256 \<longrightarrow> uint (drop_bit 8 (dataFloat4ToUchar4 f) AND 0xFF) = \<lfloor>f_y f\<rfloor>)
   \<and> (0 \<le> f_z f \<and> f_z f < 256 \<longrightarrow> uint (drop_bit 16 (dataFloat4ToUchar4 f) AND 0xFF) = \<lfloor>f_z f\<rfloor>)
   \<and> (0 \<le> f_w f \<and> f_w f < 256 \<longrightarrow> uint (drop_bit 24 (dataFloat4ToUchar4 f) AND 0xFF) = \<lfloor>f_w f\<rfloor>)"
  unfolding byte_masks(1) pack_channels uint_low_byte
  using unpack_range [of u] pack_unpack [of u]
    in_range_byte [of "f_x f"] in_range_byte [of "f_y f"] in_range_byte [of "f_z f"]
    in_range_byte [of "f_w f"]
  by blast

theorem packed_channels_truncated_witness:
  "uint (dataFloat4ToUchar4 \<lparr>f_x = 255 / 2, f_y = 0, f_z = 3 / 4, f_w = 255\<rparr> AND 0xFF) = 127
   \<and> uint (drop_bit 16 (dataFloat4ToUchar4 \<lparr>f_x = 255 / 2, f_y = 0, f_z = 3 / 4, f_w = 255\<rparr>) AND 0xFF) = 0
   \<and> dataFloat4ToUchar4 (dataUchar4ToFloat4 0x7F00FF01) = 0x7F00FF01"
  using packed_channels_truncated [of "0x7F00FF01" "\<lparr>f_x = 255 / 2, f_y = 0, f_z = 3 / 4, f_w = 255\<rparr>"]
  by simp

subsection \<open>Fusion\<close>










subsection \<open>ResizeBillinear\<close>

lemma clamp_code_eq_spec:
  assumes "0 < n"
  shows "(case (if i < 0 then (0, 0) else (i, fr)) of
            (x, u) \<Rightarrow> (if x \<ge> n then (n - 1, 0) else (x, u))) = spec_clamp_index i fr n"
  using assms by (auto simp add: spec_clamp_index_def)









subsection \<open>GaussianBlur\<close>




lemma row_address_inj:
  assumes "0 < (W::int)"
  shows "c + int i * W = c + int j * W \<longleftrightarrow> i = j"
  using assms by simp













subsection \<open>Padding\<close>

lemma c_div_nonneg: "0 \<le> a \<Longrightarrow> 0 < b \<Longrightarrow> c_div a b = a div b"
  by (cases "a = 0") (simp_all add: c_div_def)

lemma store4_loop_iff:
  "(a, v) \<in> set (store4_loop lo hi f) \<longleftrightarrow> (\<exists>i. lo \<le> i \<and> i < hi \<and> (a, v) \<in> set (store4 i (f i)))"
  by (auto simp add: store4_loop_def)

lemma store4_iff:
  "(a, v) \<in> set (store4 i u) \<longleftrightarrow>
     (a = 4 * i \<and> v = c_x u) \<or> (a = 4 * i + 1 \<and> v = c_y u)
     \<or> (a = 4 * i + 2 \<and> v = c_z u) \<or> (a = 4 * i + 3 \<and> v = c_w u)"
  by (auto simp add: store4_def)

lemma copy_store4_iff:
  "(a, v) \<in> set (store4 i (vload4 (s + i - lo) src))
     \<longleftrightarrow> 4 * i \<le> a \<and> a < 4 * i + 4 \<and> v = src (a + 4 * (s - lo))"
proof -
  have e: "4 * (s + i - lo) + b = (4 * i + b) + 4 * (s - lo)" for b
    by (simp add: algebra_simps)
  have "(a, v) \<in> set (store4 i (vload4 (s + i - lo) src))
     \<longleftrightarrow> (a = 4 * i + 0 \<and> v = src ((4 * i + 0) + 4 * (s - lo)))
       \<or> (a = 4 * i + 1 \<and> v = src ((4 * i + 1) + 4 * (s - lo)))
       \<or> (a = 4 * i + 2 \<and> v = src ((4 * i + 2) + 4 * (s - lo)))
       \<or> (a = 4 * i + 3 \<and> v = src ((4 * i + 3) + 4 * (s - lo)))"
    unfolding store4_iff vload4_def uchar4.simps e [symmetric] by simp
  also have "\<dots> \<longleftrightarrow> (a = 4 * i + 0 \<or> a = 4 * i + 1 \<or> a = 4 * i + 2 \<or> a = 4 * i + 3)
       \<and> v = src (a + 4 * (s - lo))"
    by blast
  also have "(a = 4 * i + 0 \<or> a = 4 * i + 1 \<or> a = 4 * i + 2 \<or> a = 4 * i + 3)
       \<longleftrightarrow> 4 * i \<le> a \<and> a < 4 * i + 4"
    by presburger
  finally show ?thesis by blast
qed

lemma copy_loop_iff:
  "(a, v) \<in> set (store4_loop lo hi (\<lambda>i. vload4 (s + i - lo) src))
     \<longleftrightarrow> 4 * lo \<le> a \<and> a < 4 * hi \<and> v = src (a + 4 * (s - lo))"
proof -
  have "(\<exists>i. lo \<le> i \<and> i < hi \<and> 4 * i \<le> a \<and> a < 4 * i + 4) \<longleftrightarrow> 4 * lo \<le> a \<and> a < 4 * hi"
    by presburger
  then show ?thesis
    unfolding store4_loop_iff copy_store4_iff by blast
qed

lemma zero_loop_iff:
  "(a, v) \<in> set (store4_loop lo hi (\<lambda>i. zero4)) \<longleftrightarrow> 4 * lo \<le> a \<and> a < 4 * hi \<and> v = 0"
proof
  assume "(a, v) \<in> set (store4_loop lo hi (\<lambda>i. zero4))"
  then obtain i where i: "lo \<le> i" "i < hi" and m: "(a, v) \<in> set (store4 i zero4)"
    unfolding store4_loop_iff by blast
  from m have "v = 0" "4 * i \<le> a" "a < 4 * i + 4"
    unfolding store4_iff by (auto simp add: zero4_def)
  with i show "4 * lo \<le> a \<and> a < 4 * hi \<and> v = 0" by simp
next
  assume r: "4 * lo \<le> a \<and> a < 4 * hi \<and> v = 0"
  define i where "i = a div 4"
  have "lo \<le> i" "i < hi" using r unfolding i_def by linarith+
  moreover have "a = 4 * i \<or> a = 4 * i + 1 \<or> a = 4 * i + 2 \<or> a = 4 * i + 3"
    unfolding i_def by presburger
  ultimately show "(a, v) \<in> set (store4_loop lo hi (\<lambda>i. zero4))"
    unfolding store4_loop_iff store4_iff using r by (intro exI [of _ i]) (auto simp add: zero4_def)
qed


text \<open>The byte offset at which the 4-byte stores of destination row \<open>i\<close> start, for a
  row pitch \<open>p\<close>.\<close>

lemma row_start_mono:
  fixes p :: int
  assumes "0 \<le> p" "i \<le> j"
  shows "4 * ((i * p) div 4) \<le> 4 * ((j * p) div 4)"
proof -
  have "i * p \<le> j * p" by (rule mult_right_mono [OF assms(2) assms(1)])
  then have "(i * p) div 4 \<le> (j * p) div 4" by (rule zdiv_mono1) simp
  then show ?thesis by simp
qed

lemma row_start_step:
  fixes p w :: int
  assumes "4 dvd w" "w \<le> p"
  shows "4 * ((i * p) div 4) + w \<le> 4 * ((i * p + p) div 4)"
proof -
  obtain k where k: "w = 4 * k" using assms(1) by (auto simp add: dvd_def)
  have "(i * p + w) div 4 \<le> (i * p + p) div 4"
    by (rule zdiv_mono1) (use assms(2) in simp_all)
  moreover have "(i * p + w) div 4 = (i * p) div 4 + k"
    unfolding k by simp
  ultimately show ?thesis unfolding k by simp
qed

lemma row_copy_end:
  fixes w :: int
  assumes "4 dvd w"
  shows "4 * ((q + w) div 4) = 4 * (q div 4) + w"
proof -
  obtain k where k: "w = 4 * k" using assms by (auto simp add: dvd_def)
  show ?thesis unfolding k by simp
qed

lemma NV12_Add_Padding_iff:
  assumes W4: "4 dvd width" and WO: "width \<le> owidth" and W0: "0 \<le> width"
  shows "(a, v) \<in> set (NV12_Add_Padding src width height owidth oheight idx) \<longleftrightarrow>
     int idx < oheight
     \<and> 4 * ((int idx * owidth) div 4) \<le> a \<and> a < 4 * ((int idx * owidth + owidth) div 4)
     \<and> v = (let Y_height = c_div (height * 2) 3;
                Y_padding_lines = c_div ((oheight - height) * 2) 3
            in if (int idx \<ge> Y_height \<and> int idx < Y_height + Y_padding_lines)
                  \<or> int idx > height + Y_padding_lines - 1
                  \<or> a \<ge> 4 * ((int idx * owidth) div 4) + width
               then 0
               else src (a - 4 * ((int idx * owidth) div 4)
                        + 4 * (((if int idx \<ge> Y_height + Y_padding_lines
                                 then int idx - Y_padding_lines else int idx) * width) div 4)))"
proof -
  define P where "P = 4 * ((int idx * owidth) div 4)"
  define P' where "P' = 4 * ((int idx * owidth + owidth) div 4)"
  have ce: "4 * ((int idx * owidth + width) div 4) = P + width"
    unfolding P_def by (rule row_copy_end [OF W4])
  have step: "P + width \<le> P'"
    unfolding P_def P'_def by (rule row_start_step [OF W4 WO])
  have eq: "owidth = width \<Longrightarrow> P' = P + width"
    using ce unfolding P'_def by simp
  have sh: "a + 4 * (s div 4 - (int idx * owidth) div 4) = a - P + 4 * (s div 4)" for s
    unfolding P_def by simp
  define Yh where "Yh = c_div (height * 2) 3"
  define Yp where "Yp = c_div ((oheight - height) * 2) 3"
  define z where "z \<longleftrightarrow> (int idx \<ge> Yh \<and> int idx < Yh + Yp) \<or> int idx > height + Yp - 1"
  define s where "s = (if int idx \<ge> Yh + Yp then int idx - Yp else int idx) * width"
  have unf: "NV12_Add_Padding src width height owidth oheight idx =
      (if int idx > oheight - 1 then []
       else if z then store4_loop ((int idx * owidth) div 4) ((int idx * owidth + owidth) div 4)
                        (\<lambda>i. zero4)
       else store4_loop ((int idx * owidth) div 4) ((int idx * owidth + width) div 4)
              (\<lambda>i. vload4 (s div 4 + i - (int idx * owidth) div 4) src)
            @ (if owidth > width
               then store4_loop ((int idx * owidth + width) div 4)
                      ((int idx * owidth + owidth) div 4) (\<lambda>i. zero4)
               else []))"
    unfolding NV12_Add_Padding_def Let_def drop_bit_eq_div Yh_def [symmetric] Yp_def [symmetric]
      z_def s_def
    by simp
  have goal: "(a, v) \<in> set (NV12_Add_Padding src width height owidth oheight idx) \<longleftrightarrow>
     int idx < oheight \<and> P \<le> a \<and> a < P'
     \<and> v = (if z \<or> a \<ge> P + width then 0 else src (a - P + 4 * (s div 4)))"
  proof (cases "int idx > oheight - 1")
    case True
    then show ?thesis unfolding unf by simp
  next
    case inb: False
    show ?thesis
    proof (cases z)
      case True
      with inb show ?thesis
        unfolding unf by (simp add: zero_loop_iff P_def P'_def)
    next
      case nz: False
      have copy: "(a, v) \<in> set (store4_loop ((int idx * owidth) div 4)
                     ((int idx * owidth + width) div 4)
                     (\<lambda>i. vload4 (s div 4 + i - (int idx * owidth) div 4) src))
                  \<longleftrightarrow> P \<le> a \<and> a < P + width \<and> v = src (a - P + 4 * (s div 4))"
        unfolding copy_loop_iff sh ce P_def [symmetric] by (rule refl)
      have zero: "(a, v) \<in> set (store4_loop ((int idx * owidth + width) div 4)
                     ((int idx * owidth + owidth) div 4) (\<lambda>i. zero4))
                  \<longleftrightarrow> P + width \<le> a \<and> a < P' \<and> v = 0"
        unfolding zero_loop_iff ce P'_def [symmetric] by (rule refl)
      show ?thesis
      proof (cases "owidth > width")
        case True
        have "(a, v) \<in> set (NV12_Add_Padding src width height owidth oheight idx) \<longleftrightarrow>
            (P \<le> a \<and> a < P + width \<and> v = src (a - P + 4 * (s div 4)))
            \<or> (P + width \<le> a \<and> a < P' \<and> v = 0)"
          unfolding unf using inb nz True by (simp only: if_False if_True set_append Un_iff copy zero)
        then show ?thesis using step inb nz W0 by auto
      next
        case False
        then have e: "P' = P + width" using WO eq by simp
        have "(a, v) \<in> set (NV12_Add_Padding src width height owidth oheight idx) \<longleftrightarrow>
            (P \<le> a \<and> a < P + width \<and> v = src (a - P + 4 * (s div 4)))"
          unfolding unf using inb nz False
          by (simp only: if_False if_True append_Nil2 copy)
        then show ?thesis using inb nz unfolding e by auto
      qed
    qed
  qed
  show ?thesis
    unfolding goal Let_def P_def [symmetric] P'_def [symmetric] Yh_def [symmetric]
      Yp_def [symmetric] z_def s_def
    by (simp only: disj_assoc)
qed


lemma NV12_Remove_Padding_iff:
  assumes W4: "4 dvd owidth"
  shows "(a, v) \<in> set (NV12_Remove_Padding src width height owidth oheight idx) \<longleftrightarrow>
     int idx < oheight
     \<and> int idx * owidth \<le> a \<and> a < int idx * owidth + owidth
     \<and> v = src (a - int idx * owidth
                + 4 * (((if int idx > c_div (oheight * 2) 3 - 1
                         then int idx + c_div ((height - oheight) * 2) 3 else int idx) * width)
                       div 4))"
proof -
  define s where "s = (if int idx > c_div (oheight * 2) 3 - 1
                       then int idx + c_div ((height - oheight) * 2) 3 else int idx) * width"
  have d: "4 dvd int idx * owidth" using W4 by simp
  have lo: "4 * ((int idx * owidth) div 4) = int idx * owidth"
    using d by simp
  have hi: "4 * ((int idx * owidth + owidth) div 4) = int idx * owidth + owidth"
    using row_copy_end [OF W4, of "int idx * owidth"] lo by simp
  have sh: "a + 4 * (s div 4 - (int idx * owidth) div 4) = a - int idx * owidth + 4 * (s div 4)"
    using lo by simp
  have unf: "NV12_Remove_Padding src width height owidth oheight idx =
      (if int idx > oheight - 1 then []
       else store4_loop ((int idx * owidth) div 4) ((int idx * owidth + owidth) div 4)
              (\<lambda>i. vload4 (s div 4 + i - (int idx * owidth) div 4) src))"
    unfolding NV12_Remove_Padding_def Let_def drop_bit_eq_div s_def by simp
  show ?thesis
  proof (cases "int idx > oheight - 1")
    case True
    then show ?thesis unfolding unf by simp
  next
    case False
    then have "int idx < oheight" by simp
    then show ?thesis
      unfolding unf s_def [symmetric] using False
      by (simp only: if_False copy_loop_iff sh lo hi simp_thms)
  qed
qed


lemma region_unique:
  fixes p :: int
  assumes p: "0 \<le> p"
    and i: "4 * ((int i * p) div 4) \<le> a" "a < 4 * ((int i * p + p) div 4)"
    and j: "4 * ((int j * p) div 4) \<le> a" "a < 4 * ((int j * p + p) div 4)"
  shows "i = j"
proof (rule ccontr)
  assume "i \<noteq> j"
  then consider "int i + 1 \<le> int j" | "int j + 1 \<le> int i" by linarith
  then show False
  proof cases
    case 1
    from row_start_mono [OF p 1] have "4 * ((int i * p + p) div 4) \<le> 4 * ((int j * p) div 4)"
      by (simp add: algebra_simps)
    with i(2) j(1) show False by linarith
  next
    case 2
    from row_start_mono [OF p 2] have "4 * ((int j * p + p) div 4) \<le> 4 * ((int i * p) div 4)"
      by (simp add: algebra_simps)
    with j(2) i(1) show False by linarith
  qed
qed

lemma padded_row:
  assumes W4: "4 dvd width" and W0: "0 \<le> width" and WO: "width \<le> owidth"
    and grid: "j \<in> set add_grid"
    and j: "int j < oheight"
    and copy: "\<not> ((int j \<ge> c_div (height * 2) 3
                  \<and> int j < c_div (height * 2) 3 + c_div ((oheight - height) * 2) 3)
                 \<or> int j > height + c_div ((oheight - height) * 2) 3 - 1)"
    and b: "0 \<le> b" "b < width"
  shows "dispatch (NV12_Add_Padding x width height owidth oheight) add_grid padded0
           (4 * ((int j * owidth) div 4) + b)
         = x (b + 4 * (((if int j \<ge> c_div (height * 2) 3 + c_div ((oheight - height) * 2) 3
                          then int j - c_div ((oheight - height) * 2) 3 else int j) * width) div 4))"
proof (rule dispatch_determined [OF grid])
  define a where "a = 4 * ((int j * owidth) div 4) + b"
  have O0: "0 \<le> owidth" using W0 WO by linarith
  have up: "a < 4 * ((int j * owidth + owidth) div 4)"
    using row_start_step [OF W4 WO, of "int j"] b unfolding a_def by linarith
  have lo: "4 * ((int j * owidth) div 4) \<le> a"
    using b unfolding a_def by simp
  have nz: "\<not> a \<ge> 4 * ((int j * owidth) div 4) + width"
    using b unfolding a_def by simp
  have off: "a - 4 * ((int j * owidth) div 4) = b"
    unfolding a_def by simp
  note iff = NV12_Add_Padding_iff [OF W4 WO W0, unfolded Let_def]
  show "(4 * ((int j * owidth) div 4) + b,
         x (b + 4 * (((if int j \<ge> c_div (height * 2) 3 + c_div ((oheight - height) * 2) 3
                        then int j - c_div ((oheight - height) * 2) 3 else int j) * width) div 4)))
        \<in> set (NV12_Add_Padding x width height owidth oheight j)"
    unfolding iff a_def [symmetric] using j lo up copy nz off by auto
  fix t' v'
  assume t': "t' \<in> set add_grid"
    and m: "(4 * ((int j * owidth) div 4) + b, v')
              \<in> set (NV12_Add_Padding x width height owidth oheight t')"
  from m have r: "4 * ((int t' * owidth) div 4) \<le> a" "a < 4 * ((int t' * owidth + owidth) div 4)"
    unfolding iff a_def [symmetric] by blast+
  have "t' = j" by (rule region_unique [OF O0 r lo up])
  with m show "v' = x (b + 4 * (((if int j \<ge> c_div (height * 2) 3
                                       + c_div ((oheight - height) * 2) 3
                        then int j - c_div ((oheight - height) * 2) 3 else int j) * width) div 4))"
    unfolding iff a_def [symmetric] using copy nz off by auto
qed


lemma c_div_two_thirds:
  assumes "0 \<le> n"
  shows "0 \<le> c_div (n * 2) 3" and "c_div (n * 2) 3 \<le> n"
proof -
  have e: "c_div (n * 2) 3 = (n * 2) div 3"
    using assms by (intro c_div_nonneg) simp_all
  show "0 \<le> c_div (n * 2) 3" unfolding e using assms by simp
  show "c_div (n * 2) 3 \<le> n" unfolding e using assms by linarith
qed

lemma pixel_row:
  fixes a w :: int
  assumes "0 < w" "0 \<le> a" "int t * w \<le> a" "a < int t * w + w"
  shows "int t = a div w"
proof -
  have "((a - int t * w) + int t * w) div w = int t + (a - int t * w) div w"
    using assms(1) by (intro div_mult_self1) simp
  moreover have "(a - int t * w) div w = 0"
    using assms by (intro div_pos_pos_trivial) simp_all
  ultimately show ?thesis by simp
qed

text \<open>
  Claim C7. Let \<open>x\<close> be an NV12 buffer of \<open>height\<close> rows of \<open>width\<close> bytes, \<open>width\<close> a
  positive multiple of 4, padded by \<open>NV12_Add_Padding\<close> to rows of \<open>owidth \<ge> width\<close>
  bytes and \<open>oheight \<ge> height\<close> rows, by a dispatch that runs every row index below
  \<open>oheight\<close>; and let \<open>NV12_Remove_Padding\<close> bring the result back to \<open>width\<close> by
  \<open>height\<close>, by a dispatch that runs every row index below \<open>height\<close>. Then every byte
  of the active region \<open>[0, width * height)\<close> of the final buffer equals the byte of
  \<open>x\<close> at the same offset, whatever the two destination buffers held before.
\<close>

theorem padding_round_trip:
  assumes W4: "4 dvd width" and W: "0 < width" and WO: "width \<le> owidth"
    and H: "0 \<le> height" and HO: "height \<le> oheight"
    and add_grid: "\<forall>i. int i < oheight \<longrightarrow> i \<in> set add_grid"
    and remove_grid: "\<forall>i. int i < height \<longrightarrow> i \<in> set remove_grid"
    and a: "0 \<le> a" "a < width * height"
  shows "dispatch
           (NV12_Remove_Padding
              (dispatch (NV12_Add_Padding x width height owidth oheight) add_grid padded0)
              owidth oheight width height)
           remove_grid out0 a
         = x a"
proof -
  define padded where
    "padded = dispatch (NV12_Add_Padding x width height owidth oheight) add_grid padded0"
  define Yh where "Yh = c_div (height * 2) 3"
  define Yp where "Yp = c_div ((oheight - height) * 2) 3"
  have Yh: "0 \<le> Yh" "Yh \<le> height"
    unfolding Yh_def by (rule c_div_two_thirds [OF H])+
  have Yp: "0 \<le> Yp" "Yp \<le> oheight - height"
    unfolding Yp_def by (rule c_div_two_thirds; use HO in simp)+
  define t where "t = nat (a div width)"
  define b where "b = a mod width"
  have t: "int t = a div width"
    unfolding t_def using a(1) W by (simp add: pos_imp_zdiv_nonneg_iff)
  have b: "0 \<le> b" "b < width"
    unfolding b_def using W by simp_all
  have ab: "a = int t * width + b"
    unfolding t b_def by simp
  have tH: "int t < height"
  proof (rule ccontr)
    assume "\<not> int t < height"
    then have "height \<le> int t" by simp
    then have "width * height \<le> width * int t"
      using W by (intro mult_left_mono) simp_all
    with ab b(1) a(2) show False by (simp add: mult.commute)
  qed
  define s where "s = (if int t > Yh - 1 then int t + Yp else int t)"
  have s0: "0 \<le> s" unfolding s_def using Yp(1) by simp
  have sO: "s < oheight" unfolding s_def using Yp(2) tH HO by simp
  have ns: "int (nat s) = s" using s0 by simp
  have copy: "\<not> ((s \<ge> Yh \<and> s < Yh + Yp) \<or> s > height + Yp - 1)"
    unfolding s_def using tH Yp(1) by auto
  have src_row: "(if s \<ge> Yh + Yp then s - Yp else s) = int t"
    unfolding s_def using Yp(1) by auto
  have d4: "4 * ((int t * width) div 4) = int t * width"
    using W4 by simp
  have pv: "padded (4 * ((s * owidth) div 4) + b) = x a"
  proof -
    have "padded (4 * ((int (nat s) * owidth) div 4) + b)
          = x (b + 4 * (((if int (nat s) \<ge> c_div (height * 2) 3
                               + c_div ((oheight - height) * 2) 3
                           then int (nat s) - c_div ((oheight - height) * 2) 3
                           else int (nat s)) * width) div 4))"
      unfolding padded_def
    proof (rule padded_row [OF W4 _ WO _ _ _ b])
      show "0 \<le> width" using W by simp
      show "nat s \<in> set add_grid" using add_grid sO ns by simp
      show "int (nat s) < oheight" using sO ns by simp
      show "\<not> ((int (nat s) \<ge> c_div (height * 2) 3
                  \<and> int (nat s) < c_div (height * 2) 3 + c_div ((oheight - height) * 2) 3)
                 \<or> int (nat s) > height + c_div ((oheight - height) * 2) 3 - 1)"
        unfolding ns Yh_def [symmetric] Yp_def [symmetric] by (rule copy)
    qed
    then show ?thesis
      unfolding ns Yh_def [symmetric] Yp_def [symmetric] src_row d4 ab by (simp add: add.commute)
  qed
  have off: "a - int t * width = b" using ab by simp
  have pv2: "padded (a - int t * width + 4 * ((s * owidth) div 4)) = x a"
    unfolding off using pv by (simp add: add.commute)
  have rng: "int t * width \<le> a" "a < int t * width + width"
    using ab b by simp_all
  note iff = NV12_Remove_Padding_iff [OF W4, of _ _ padded owidth oheight height]
  have tg: "t \<in> set remove_grid" using remove_grid tH by simp
  show ?thesis
    unfolding padded_def [symmetric]
  proof (rule dispatch_determined [OF tg])
    show "(a, x a) \<in> set (NV12_Remove_Padding padded owidth oheight width height t)"
      unfolding iff Yh_def [symmetric] Yp_def [symmetric] s_def [symmetric]
      using tH rng pv2 by simp
    fix t' v'
    assume "t' \<in> set remove_grid"
      and m: "(a, v') \<in> set (NV12_Remove_Padding padded owidth oheight width height t')"
    from m have "int t' * width \<le> a" "a < int t' * width + width"
      unfolding iff by blast+
    then have "int t' = a div width" by (intro pixel_row [OF W a(1)])
    then have tt: "t' = t" using t by simp
    from m have "(a, v') \<in> set (NV12_Remove_Padding padded owidth oheight width height t)"
      unfolding tt .
    then have "v' = padded (a - int t * width + 4 * ((s * owidth) div 4))"
      unfolding iff Yh_def [symmetric] Yp_def [symmetric] s_def [symmetric] by blast
    then show "v' = x a"
      unfolding pv2 .
  qed
qed


theorem padding_round_trip_witness:
  "dispatch
     (NV12_Remove_Padding (dispatch (NV12_Add_Padding word_of_int 4 3 8 6) [0..<6] (\<lambda>_. 0)) 8 6 4 3)
     [0..<3] (\<lambda>_. 0) 9
   = word_of_int 9"
  using padding_round_trip [where width = 4 and owidth = 8 and height = 3 and oheight = 6
      and add_grid = "[0..<6]" and remove_grid = "[0..<3]" and a = 9 and x = word_of_int
      and ?padded0.0 = "\<lambda>_. 0" and ?out0.0 = "\<lambda>_. 0"]
  by simp

subsection \<open>Transpose\<close>








text \<open>
  The parameter \<open>block\<close> is the tile of the threadgroup that the kernel's comments
  describe (shared by the work items of one threadgroup); the theorem is about a square
  tile, the load and the store phase index it with the two edges exchanged.
\<close>



subsection \<open>NV12 and I420 conversion\<close>

lemma even_and_minus_2:
  fixes k :: int
  assumes "even k"
  shows "k AND (- 2) = k"
proof (rule bit_eqI)
  fix n
  show "bit (k AND - 2) n = bit k n"
    using assms by (cases n) (simp_all add: bit_and_iff bit_0 even_and_iff)
qed

lemma convert_int_identity: "convert_int (real_of_int 0 + real_of_int (int n) * 1) = int n"
  by (simp add: convert_int_def)

lemma image_config_nth:
  "image_config W H ! CONFIG_WIDTH = W" "image_config W H ! CONFIG_HEIGHT = H"
  "image_config W H ! CONFIG_X = 0" "image_config W H ! CONFIG_Y = 0"
  "image_config W H ! CONFIG_HALF_W = c_div W 2" "image_config W H ! CONFIG_WH = W * H"
  by (simp_all add: image_config_def CONFIG_WIDTH_def CONFIG_HEIGHT_def CONFIG_X_def CONFIG_Y_def
      CONFIG_HALF_W_def CONFIG_WH_def)

lemma identity_rect_nth: "identity_rect ! RECT_KX = 1" "identity_rect ! RECT_KY = 1"
  by (simp_all add: identity_rect_def RECT_KX_def RECT_KY_def)

lemma chroma_address:
  fixes w y x :: int
  assumes "even x"
  shows "2 * w * y + x = 2 * (w * y + x div 2)"
  using assms by (auto elim!: evenE simp add: algebra_simps)

lemma NV12_I420_identity:
  assumes w: "0 < w"
  shows "NV12_I420 src (image_config (4 * w) H) (image_config (4 * w) H) identity_rect (x, y) =
     (if int y \<ge> 4 * w then []
      else [((Plane_Y, int y * (4 * w) + int x), src (int y * (4 * w) + int x))]
           @ (if even x \<and> even y
              then [((Plane_U, w * int y + int x div 2), src (2 * (w * int y + int x div 2) + 4 * w * H)),
                    ((Plane_V, w * int y + int x div 2),
                     src (2 * (w * int y + int x div 2) + 4 * w * H + 1))]
              else []))"
proof -
  have d: "c_div (4 * w) 4 = w" "c_div (4 * w) 2 = 2 * w"
    using w by (simp_all add: c_div_nonneg)
  have h: "c_div (int x) 2 = int x div 2"
    by (simp add: c_div_nonneg)
  have a: "even x \<Longrightarrow> 2 * w * int y + (int x + 4 * w * H) = 2 * (w * int y + int x div 2) + 4 * w * H"
    using chroma_address [of "int x" w "int y"] by simp
  show ?thesis
    unfolding NV12_I420_def Let_def image_config_nth identity_rect_nth convert_int_identity
      mad24_def fst_conv snd_conv d h
    by (simp add: even_and_minus_2 even_iff_mod_2_eq_zero [symmetric] h algebra_simps)
qed

lemma I420_NV12_identity:
  assumes w: "0 < w"
  shows "I420_NV12 srcy srcu srcv (image_config (4 * w) H) (image_config (4 * w) H) identity_rect (x, y) =
     (if int y \<ge> H \<or> int x \<ge> 4 * w then []
      else [(int y * (4 * w) + int x, srcy (int y * (4 * w) + int x))]
           @ (if even x \<and> even y
              then [(2 * (w * int y + int x div 2) + 4 * w * H, srcu (w * int y + int x div 2)),
                    (2 * (w * int y + int x div 2) + 4 * w * H + 1, srcv (w * int y + int x div 2))]
              else []))"
proof -
  have d: "c_div (4 * w) 4 = w" "c_div (4 * w) 2 = 2 * w"
    using w by (simp_all add: c_div_nonneg)
  have h: "c_div (int x) 2 = int x div 2"
    by (simp add: c_div_nonneg)
  have a: "even x \<Longrightarrow> 2 * w * int y + (int x + 4 * w * H) = 2 * (w * int y + int x div 2) + 4 * w * H"
    using chroma_address [of "int x" w "int y"] by simp
  show ?thesis
    unfolding I420_NV12_def Let_def image_config_nth identity_rect_nth convert_int_identity
      mad24_def fst_conv snd_conv d
    by (simp add: even_and_minus_2 even_iff_mod_2_eq_zero [symmetric] h algebra_simps)
qed


lemma NV12_I420_identity_iff:
  assumes w: "0 < w"
  shows "((p, k), v) \<in> set (NV12_I420 src (image_config (4 * w) H) (image_config (4 * w) H)
                            identity_rect (x, y)) \<longleftrightarrow>
     int y < 4 * w
     \<and> ((p = Plane_Y \<and> k = int y * (4 * w) + int x \<and> v = src k)
        \<or> (even x \<and> even y \<and> k = w * int y + int x div 2
            \<and> ((p = Plane_U \<and> v = src (2 * k + 4 * w * H))
               \<or> (p = Plane_V \<and> v = src (2 * k + 4 * w * H + 1)))))"
  unfolding NV12_I420_identity [OF w] by auto

lemma I420_NV12_identity_iff:
  assumes w: "0 < w"
  shows "(k, v) \<in> set (I420_NV12 srcy srcu srcv (image_config (4 * w) H) (image_config (4 * w) H)
                        identity_rect (x, y)) \<longleftrightarrow>
     int y < H \<and> int x < 4 * w
     \<and> ((k = int y * (4 * w) + int x \<and> v = srcy k)
        \<or> (even x \<and> even y
            \<and> ((k = 2 * (w * int y + int x div 2) + 4 * w * H
                   \<and> v = srcu (w * int y + int x div 2))
               \<or> (k = 2 * (w * int y + int x div 2) + 4 * w * H + 1
                   \<and> v = srcv (w * int y + int x div 2)))))"
  unfolding I420_NV12_identity [OF w] by auto

lemma luma_thread:
  fixes W :: int
  assumes W: "0 < W" and a: "0 \<le> a" "a < W * H"
  shows "int (nat (a div W)) < H" and "int (nat (a mod W)) < W"
    and "int (nat (a div W)) * W + int (nat (a mod W)) = a"
proof -
  have d0: "0 \<le> a div W" using W a(1) by (simp add: pos_imp_zdiv_nonneg_iff)
  have m0: "0 \<le> a mod W" "a mod W < W" using W by simp_all
  have "a div W < H"
  proof (rule ccontr)
    assume "\<not> a div W < H"
    then have "W * H \<le> W * (a div W)" using W by (intro mult_left_mono) simp_all
    also have "\<dots> \<le> a" using m0(1) mult_div_mod_eq [of W a] by linarith
    finally show False using a(2) by simp
  qed
  then show "int (nat (a div W)) < H" using d0 by simp
  show "int (nat (a mod W)) < W" using m0 by simp
  show "int (nat (a div W)) * W + int (nat (a mod W)) = a"
    using d0 m0 by simp
qed

lemma chroma_thread:
  fixes w :: int
  assumes w: "0 < w" and n: "0 \<le> n" "n < w * H"
  shows "int (2 * nat (n div (2 * w))) < H" and "int (2 * nat (n mod (2 * w))) < 4 * w"
    and "w * int (2 * nat (n div (2 * w))) + int (2 * nat (n mod (2 * w))) div 2 = n"
proof -
  define q where "q = n div (2 * w)"
  define r where "r = n mod (2 * w)"
  have q0: "0 \<le> q" unfolding q_def using w n(1) by (simp add: pos_imp_zdiv_nonneg_iff)
  have r0: "0 \<le> r" "r < 2 * w" unfolding r_def using w by simp_all
  have nqr: "n = 2 * w * q + r" unfolding q_def r_def by simp
  have "w * (2 * q) < w * H" using nqr r0(1) n(2) by (simp add: algebra_simps)
  then have qH: "2 * q < H" using w by (simp add: mult_less_cancel_left_pos)
  show "int (2 * nat (n div (2 * w))) < H"
    unfolding q_def [symmetric] using q0 qH by simp
  show "int (2 * nat (n mod (2 * w))) < 4 * w"
    unfolding r_def [symmetric] using r0 by simp
  show "w * int (2 * nat (n div (2 * w))) + int (2 * nat (n mod (2 * w))) div 2 = n"
    unfolding q_def [symmetric] r_def [symmetric] using q0 r0 nqr by simp
qed


lemma to_I420_luma:
  assumes w: "0 < w" and HW: "H \<le> 4 * w"
    and grid: "\<forall>x y. int x < 4 * w \<and> int y < H \<longrightarrow> (x, y) \<in> set ts"
    and a: "0 \<le> a" "a < 4 * w * H"
  shows "dispatch (NV12_I420 src (image_config (4 * w) H) (image_config (4 * w) H) identity_rect)
           ts m0 (Plane_Y, a) = src a"
proof (rule dispatch_determined [where t = "(nat (a mod (4 * w)), nat (a div (4 * w)))"])
  have W: "0 < 4 * w" using w by simp
  note th = luma_thread [OF W a]
  show "(nat (a mod (4 * w)), nat (a div (4 * w))) \<in> set ts"
    using grid th(1,2) by blast
  show "((Plane_Y, a), src a)
        \<in> set (NV12_I420 src (image_config (4 * w) H) (image_config (4 * w) H) identity_rect
                 (nat (a mod (4 * w)), nat (a div (4 * w))))"
    unfolding NV12_I420_identity_iff [OF w] using th HW by simp
  fix t' v'
  assume "t' \<in> set ts"
    and m: "((Plane_Y, a), v')
            \<in> set (NV12_I420 src (image_config (4 * w) H) (image_config (4 * w) H) identity_rect t')"
  obtain x y where p: "t' = (x, y)" by (cases t')
  from m show "v' = src a"
    unfolding p NV12_I420_identity_iff [OF w] by simp
qed

lemma to_I420_chroma:
  assumes w: "0 < w" and HW: "H \<le> 4 * w"
    and grid: "\<forall>x y. int x < 4 * w \<and> int y < H \<longrightarrow> (x, y) \<in> set ts"
    and n: "0 \<le> n" "n < w * H"
  shows "dispatch (NV12_I420 src (image_config (4 * w) H) (image_config (4 * w) H) identity_rect)
           ts m0 (Plane_U, n) = src (2 * n + 4 * w * H)"
    and "dispatch (NV12_I420 src (image_config (4 * w) H) (image_config (4 * w) H) identity_rect)
           ts m0 (Plane_V, n) = src (2 * n + 4 * w * H + 1)"
proof -
  define x where "x = 2 * nat (n mod (2 * w))"
  define y where "y = 2 * nat (n div (2 * w))"
  note th = chroma_thread [OF w n, folded x_def y_def]
  have ev: "even x" "even y" by (simp_all add: x_def y_def)
  have t: "(x, y) \<in> set ts" using grid th(1,2) by blast
  have yW: "int y < 4 * w" using th(1) HW by linarith
  show "dispatch (NV12_I420 src (image_config (4 * w) H) (image_config (4 * w) H) identity_rect)
           ts m0 (Plane_U, n) = src (2 * n + 4 * w * H)"
  proof (rule dispatch_determined [OF t])
    show "((Plane_U, n), src (2 * n + 4 * w * H))
          \<in> set (NV12_I420 src (image_config (4 * w) H) (image_config (4 * w) H) identity_rect (x, y))"
      unfolding NV12_I420_identity_iff [OF w] using th(3) ev yW by simp
    fix t' v'
    assume "t' \<in> set ts"
      and m: "((Plane_U, n), v')
              \<in> set (NV12_I420 src (image_config (4 * w) H) (image_config (4 * w) H) identity_rect t')"
    obtain x' y' where p: "t' = (x', y')" by (cases t')
    from m show "v' = src (2 * n + 4 * w * H)"
      unfolding p NV12_I420_identity_iff [OF w] by simp
  qed
  show "dispatch (NV12_I420 src (image_config (4 * w) H) (image_config (4 * w) H) identity_rect)
           ts m0 (Plane_V, n) = src (2 * n + 4 * w * H + 1)"
  proof (rule dispatch_determined [OF t])
    show "((Plane_V, n), src (2 * n + 4 * w * H + 1))
          \<in> set (NV12_I420 src (image_config (4 * w) H) (image_config (4 * w) H) identity_rect (x, y))"
      unfolding NV12_I420_identity_iff [OF w] using th(3) ev yW by simp
    fix t' v'
    assume "t' \<in> set ts"
      and m: "((Plane_V, n), v')
              \<in> set (NV12_I420 src (image_config (4 * w) H) (image_config (4 * w) H) identity_rect t')"
    obtain x' y' where p: "t' = (x', y')" by (cases t')
    from m show "v' = src (2 * n + 4 * w * H + 1)"
      unfolding p NV12_I420_identity_iff [OF w] by simp
  qed
qed

lemma to_NV12_luma:
  assumes w: "0 < w"
    and grid: "\<forall>x y. int x < 4 * w \<and> int y < H \<longrightarrow> (x, y) \<in> set ts"
    and a: "0 \<le> a" "a < 4 * w * H"
  shows "dispatch (I420_NV12 srcy srcu srcv (image_config (4 * w) H) (image_config (4 * w) H)
                     identity_rect) ts d0 a = srcy a"
proof (rule dispatch_determined [where t = "(nat (a mod (4 * w)), nat (a div (4 * w)))"])
  have W: "0 < 4 * w" using w by simp
  note th = luma_thread [OF W a]
  show "(nat (a mod (4 * w)), nat (a div (4 * w))) \<in> set ts"
    using grid th(1,2) by blast
  show "(a, srcy a)
        \<in> set (I420_NV12 srcy srcu srcv (image_config (4 * w) H) (image_config (4 * w) H)
                 identity_rect (nat (a mod (4 * w)), nat (a div (4 * w))))"
    unfolding I420_NV12_identity_iff [OF w] using th by simp
  fix t' v'
  assume "t' \<in> set ts"
    and m: "(a, v') \<in> set (I420_NV12 srcy srcu srcv (image_config (4 * w) H)
                             (image_config (4 * w) H) identity_rect t')"
  obtain x y where p: "t' = (x, y)" by (cases t')
  have nonneg: "0 \<le> w * int y + int x div 2" using w by simp
  from m nonneg a(2) show "v' = srcy a"
    unfolding p I420_NV12_identity_iff [OF w] by auto
qed


lemma luma_bound:
  fixes W :: int
  assumes "0 < W" "int x < W" "int y < H"
  shows "int y * W + int x < W * H"
proof -
  have "int y + 1 \<le> H" using assms(3) by simp
  then have "W * (int y + 1) \<le> W * H" using assms(1) by (intro mult_left_mono) simp_all
  then show ?thesis using assms(2) by (simp add: algebra_simps)
qed

lemma to_NV12_writer:
  assumes w: "0 < w"
    and m: "(k, v') \<in> set (I420_NV12 srcy srcu srcv (image_config (4 * w) H)
                             (image_config (4 * w) H) identity_rect t')"
  obtains (luma) "k < 4 * w * H" "v' = srcy k"
    | (u) n' where "k = 2 * n' + 4 * w * H" "v' = srcu n'"
    | (v) n' where "k = 2 * n' + 4 * w * H + 1" "v' = srcv n'"
proof -
  obtain x' y' where p: "t' = (x', y')" by (cases t')
  have W: "0 < 4 * w" using w by simp
  from m have b: "int y' < H" "int x' < 4 * w"
    unfolding p I420_NV12_identity_iff [OF w] by blast+
  from m consider "k = int y' * (4 * w) + int x'" "v' = srcy k"
    | "k = 2 * (w * int y' + int x' div 2) + 4 * w * H" "v' = srcu (w * int y' + int x' div 2)"
    | "k = 2 * (w * int y' + int x' div 2) + 4 * w * H + 1" "v' = srcv (w * int y' + int x' div 2)"
    unfolding p I420_NV12_identity_iff [OF w] by blast
  then show ?thesis
  proof cases
    case 1
    have "k < 4 * w * H" unfolding 1(1) by (rule luma_bound [OF W b(2) b(1)])
    then show ?thesis using 1(2) by (rule luma)
  next
    case 2
    then show ?thesis by (rule u)
  next
    case 3
    then show ?thesis by (rule v)
  qed
qed

lemma to_NV12_chroma:
  assumes w: "0 < w"
    and grid: "\<forall>x y. int x < 4 * w \<and> int y < H \<longrightarrow> (x, y) \<in> set ts"
    and n: "0 \<le> n" "n < w * H"
  shows "dispatch (I420_NV12 srcy srcu srcv (image_config (4 * w) H) (image_config (4 * w) H)
                     identity_rect) ts d0 (2 * n + 4 * w * H) = srcu n"
    and "dispatch (I420_NV12 srcy srcu srcv (image_config (4 * w) H) (image_config (4 * w) H)
                     identity_rect) ts d0 (2 * n + 4 * w * H + 1) = srcv n"
proof -
  define x where "x = 2 * nat (n mod (2 * w))"
  define y where "y = 2 * nat (n div (2 * w))"
  note th = chroma_thread [OF w n, folded x_def y_def]
  have ev: "even x" "even y" by (simp_all add: x_def y_def)
  have t: "(x, y) \<in> set ts" using grid th(1,2) by blast
  show "dispatch (I420_NV12 srcy srcu srcv (image_config (4 * w) H) (image_config (4 * w) H)
                     identity_rect) ts d0 (2 * n + 4 * w * H) = srcu n"
  proof (rule dispatch_determined [OF t])
    show "(2 * n + 4 * w * H, srcu n)
          \<in> set (I420_NV12 srcy srcu srcv (image_config (4 * w) H) (image_config (4 * w) H)
                   identity_rect (x, y))"
      unfolding I420_NV12_identity_iff [OF w] using th ev by simp
    fix t' v'
    assume "t' \<in> set ts"
      and m: "(2 * n + 4 * w * H, v')
              \<in> set (I420_NV12 srcy srcu srcv (image_config (4 * w) H) (image_config (4 * w) H)
                       identity_rect t')"
    from w m show "v' = srcu n"
    proof (cases rule: to_NV12_writer)
      case luma
      then have False using n(1) by linarith
      then show ?thesis ..
    next
      case (u n')
      then have "n' = n" by simp
      with u show ?thesis by simp
    next
      case (v n')
      then have "2 * n = 2 * n' + 1" by simp
      then have False by presburger
      then show ?thesis ..
    qed
  qed
  show "dispatch (I420_NV12 srcy srcu srcv (image_config (4 * w) H) (image_config (4 * w) H)
                     identity_rect) ts d0 (2 * n + 4 * w * H + 1) = srcv n"
  proof (rule dispatch_determined [OF t])
    show "(2 * n + 4 * w * H + 1, srcv n)
          \<in> set (I420_NV12 srcy srcu srcv (image_config (4 * w) H) (image_config (4 * w) H)
                   identity_rect (x, y))"
      unfolding I420_NV12_identity_iff [OF w] using th ev by simp
    fix t' v'
    assume "t' \<in> set ts"
      and m: "(2 * n + 4 * w * H + 1, v')
              \<in> set (I420_NV12 srcy srcu srcv (image_config (4 * w) H) (image_config (4 * w) H)
                       identity_rect t')"
    from w m show "v' = srcv n"
    proof (cases rule: to_NV12_writer)
      case luma
      then have False using n(1) by linarith
      then show ?thesis ..
    next
      case (u n')
      then have "2 * n + 1 = 2 * n'" by simp
      then have False by presburger
      then show ?thesis ..
    next
      case (v n')
      then have "n' = n" by simp
      with v show ?thesis by simp
    qed
  qed
qed


text \<open>
  Claim C6 as stated (every NV12 image of even width and even height survives the round
  trip) fails for a width that is even but not a multiple of 4: the I420 chroma planes
  are addressed with the row pitch \<open>width / 4\<close>, so for a 6 by 4 image the chroma samples
  of the pixels \<open>(4, 0)\<close> and \<open>(0, 2)\<close> share the offset 2 of the U plane. With the
  image whose byte at offset \<open>a\<close> is \<open>a\<close> and the grid run column by column, byte 30 of
  the result is 28.
\<close>

theorem NV12_I420_round_trip_width_6:
  "dispatch
     (I420_NV12
        (\<lambda>k. dispatch (NV12_I420 word_of_int (image_config 6 4) (image_config 6 4) identity_rect)
               (pixel_grid 6 4) (\<lambda>_. 0) (Plane_Y, k))
        (\<lambda>k. dispatch (NV12_I420 word_of_int (image_config 6 4) (image_config 6 4) identity_rect)
               (pixel_grid 6 4) (\<lambda>_. 0) (Plane_U, k))
        (\<lambda>k. dispatch (NV12_I420 word_of_int (image_config 6 4) (image_config 6 4) identity_rect)
               (pixel_grid 6 4) (\<lambda>_. 0) (Plane_V, k))
        (image_config 6 4) (image_config 6 4) identity_rect)
     (pixel_grid 6 4) (\<lambda>_. 0) 30
   \<noteq> (word_of_int 30 :: uchar)"
proof -
  have "dispatch
     (I420_NV12
        (\<lambda>k. dispatch (NV12_I420 word_of_int (image_config 6 4) (image_config 6 4) identity_rect)
               (pixel_grid 6 4) (\<lambda>_. 0) (Plane_Y, k))
        (\<lambda>k. dispatch (NV12_I420 word_of_int (image_config 6 4) (image_config 6 4) identity_rect)
               (pixel_grid 6 4) (\<lambda>_. 0) (Plane_U, k))
        (\<lambda>k. dispatch (NV12_I420 word_of_int (image_config 6 4) (image_config 6 4) identity_rect)
               (pixel_grid 6 4) (\<lambda>_. 0) (Plane_V, k))
        (image_config 6 4) (image_config 6 4) identity_rect)
     (pixel_grid 6 4) (\<lambda>_. 0) 30
   = (28 :: uchar)"
    by code_simp
  then show ?thesis by simp
qed


text \<open>
  Claim C6, amended. For an NV12 image whose width is a positive multiple of 4, whose
  height is even and does not exceed the width, converted by \<open>NV12_I420\<close> and back by
  \<open>I420_NV12\<close> with zero origins, unit scale factors and dispatches that run every pixel
  of the image, every byte of the result equals the byte of the image at the same
  offset: the luma plane \<open>[0, width * height)\<close> and the interleaved chroma plane after it.
\<close>

theorem NV12_I420_round_trip:
  assumes W4: "4 dvd width" and W: "0 < width" and He: "even height" and HW: "height \<le> width"
    and grid1: "\<forall>x y. int x < width \<and> int y < height \<longrightarrow> (x, y) \<in> set grid1"
    and grid2: "\<forall>x y. int x < width \<and> int y < height \<longrightarrow> (x, y) \<in> set grid2"
    and a: "0 \<le> a" "a < width * height + width * height div 2"
  shows "dispatch
           (I420_NV12
              (\<lambda>k. dispatch (NV12_I420 x (image_config width height) (image_config width height)
                                identity_rect) grid1 planes0 (Plane_Y, k))
              (\<lambda>k. dispatch (NV12_I420 x (image_config width height) (image_config width height)
                                identity_rect) grid1 planes0 (Plane_U, k))
              (\<lambda>k. dispatch (NV12_I420 x (image_config width height) (image_config width height)
                                identity_rect) grid1 planes0 (Plane_V, k))
              (image_config width height) (image_config width height) identity_rect)
           grid2 dst0 a
         = x a"
proof -
  obtain w where ww: "width = 4 * w" using W4 by (auto simp add: dvd_def)
  have w: "0 < w" using W ww by simp
  have HW': "height \<le> 4 * w" using HW ww by simp
  define i420 where
    "i420 = dispatch (NV12_I420 x (image_config (4 * w) height) (image_config (4 * w) height)
                        identity_rect) grid1 planes0"
  note g1 = grid1 [unfolded ww] and g2 = grid2 [unfolded ww]
  show ?thesis
    unfolding ww i420_def [symmetric]
  proof (cases "a < 4 * w * height")
    case True
    have "dispatch
           (I420_NV12 (\<lambda>k. i420 (Plane_Y, k)) (\<lambda>k. i420 (Plane_U, k)) (\<lambda>k. i420 (Plane_V, k))
              (image_config (4 * w) height) (image_config (4 * w) height) identity_rect)
           grid2 dst0 a = i420 (Plane_Y, a)"
      by (rule to_NV12_luma [OF w g2 a(1) True])
    also have "\<dots> = x a"
      unfolding i420_def by (rule to_I420_luma [OF w HW' g1 a(1) True])
    finally show "dispatch
           (I420_NV12 (\<lambda>k. i420 (Plane_Y, k)) (\<lambda>k. i420 (Plane_U, k)) (\<lambda>k. i420 (Plane_V, k))
              (image_config (4 * w) height) (image_config (4 * w) height) identity_rect)
           grid2 dst0 a = x a" .
  next
    case False
    define P where "P = w * height"
    have WH: "4 * w * height = 4 * P" by (simp add: P_def)
    define n where "n = (a - 4 * P) div 2"
    have a4: "4 * P \<le> a" using False unfolding WH by simp
    have a6: "a < 4 * P + 4 * P div 2" using a(2) unfolding ww WH .
    have n: "0 \<le> n" "n < w * height"
      unfolding n_def P_def [symmetric] using a4 a6 by presburger+
    have "a = 2 * n + 4 * P \<or> a = 2 * n + 4 * P + 1"
      unfolding n_def by presburger
    then consider "a = 2 * n + 4 * w * height" | "a = 2 * n + 4 * w * height + 1"
      unfolding WH by blast
    then show "dispatch
           (I420_NV12 (\<lambda>k. i420 (Plane_Y, k)) (\<lambda>k. i420 (Plane_U, k)) (\<lambda>k. i420 (Plane_V, k))
              (image_config (4 * w) height) (image_config (4 * w) height) identity_rect)
           grid2 dst0 a = x a"
    proof cases
      case 1
      have "dispatch
           (I420_NV12 (\<lambda>k. i420 (Plane_Y, k)) (\<lambda>k. i420 (Plane_U, k)) (\<lambda>k. i420 (Plane_V, k))
              (image_config (4 * w) height) (image_config (4 * w) height) identity_rect)
           grid2 dst0 (2 * n + 4 * w * height) = i420 (Plane_U, n)"
        by (rule to_NV12_chroma(1) [OF w g2 n])
      also have "\<dots> = x (2 * n + 4 * w * height)"
        unfolding i420_def by (rule to_I420_chroma(1) [OF w HW' g1 n])
      finally show ?thesis unfolding 1 .
    next
      case 2
      have "dispatch
           (I420_NV12 (\<lambda>k. i420 (Plane_Y, k)) (\<lambda>k. i420 (Plane_U, k)) (\<lambda>k. i420 (Plane_V, k))
              (image_config (4 * w) height) (image_config (4 * w) height) identity_rect)
           grid2 dst0 (2 * n + 4 * w * height + 1) = i420 (Plane_V, n)"
        by (rule to_NV12_chroma(2) [OF w g2 n])
      also have "\<dots> = x (2 * n + 4 * w * height + 1)"
        unfolding i420_def by (rule to_I420_chroma(2) [OF w HW' g1 n])
      finally show ?thesis unfolding 2 .
    qed
  qed
qed

theorem NV12_I420_round_trip_witness:
  "dispatch
     (I420_NV12
        (\<lambda>k. dispatch (NV12_I420 word_of_int (image_config 4 2) (image_config 4 2) identity_rect)
               (pixel_grid 4 2) (\<lambda>_. 0) (Plane_Y, k))
        (\<lambda>k. dispatch (NV12_I420 word_of_int (image_config 4 2) (image_config 4 2) identity_rect)
               (pixel_grid 4 2) (\<lambda>_. 0) (Plane_U, k))
        (\<lambda>k. dispatch (NV12_I420 word_of_int (image_config 4 2) (image_config 4 2) identity_rect)
               (pixel_grid 4 2) (\<lambda>_. 0) (Plane_V, k))
        (image_config 4 2) (image_config 4 2) identity_rect)
     (pixel_grid 4 2) (\<lambda>_. 0) 9
   = (word_of_int 9 :: uchar)"
proof -
  have g: "\<forall>x y. int x < 4 \<and> int y < 2 \<longrightarrow> (x, y) \<in> set (pixel_grid 4 2)"
    by (simp add: pixel_grid_def)
  have h: "(4::int) dvd 4" "(0::int) < 4" "even (2::int)" "(2::int) \<le> 4" "(0::int) \<le> 9"
    "(9::int) < 4 * 2 + 4 * 2 div 2"
    by simp_all
  show ?thesis
    by (rule NV12_I420_round_trip [OF h(1) h(2) h(3) h(4) g g h(5) h(6)])
qed


lemma float_to_uchar_of_uchar: "float_to_uchar (uchar_to_float c) = c"
  unfolding float_to_uchar_def uchar_to_float_def convert_int_of_nat by simp

text \<open>
  Claim C1 (no access for an index outside the image) against the two NV12 to I420
  kernels. For a 4 by 2 destination the index \<open>(0, 2)\<close> is below the last row. The fast
  kernel compares the row with the width, 4, so it does not return: it reads \<open>src[8]\<close>,
  \<open>src[12]\<close> and \<open>src[13]\<close> and stores to offset 8 of the luma plane (which has 8 bytes)
  and to offset 2 of the two chroma planes (which have 2 bytes each). The scaling kernel
  has no guard and does the same. \<open>I420_NV12\<close>, which compares the row with the height
  and the column with the width, does nothing at that index.
\<close>

theorem NV12_I420_row_beyond_height:
  "NV12_I420 src (image_config 4 2) (image_config 4 2) identity_rect (0, 2)
     = [((Plane_Y, 8), src 8), ((Plane_U, 2), src 12), ((Plane_V, 2), src 13)]
   \<and> ScaleConvert_NV12_I420 src (image_config 4 2) (image_config 4 2) identity_rect (0, 2)
     = [((Plane_Y, 8), src 8), ((Plane_U, 2), src 12), ((Plane_V, 2), src 13)]
   \<and> I420_NV12 srcy srcu srcv (image_config 4 2) (image_config 4 2) identity_rect (0, 2) = []"
proof (intro conjI)
  have w: "(0::int) < 1" by simp
  show "NV12_I420 src (image_config 4 2) (image_config 4 2) identity_rect (0, 2)
     = [((Plane_Y, 8), src 8), ((Plane_U, 2), src 12), ((Plane_V, 2), src 13)]"
    using NV12_I420_identity [OF w, of src 2 0 2] by simp
  show "I420_NV12 srcy srcu srcv (image_config 4 2) (image_config 4 2) identity_rect (0, 2) = []"
    using I420_NV12_identity [OF w, of srcy srcu srcv 2 0 2] by simp
  have c: "convert_int (real_of_int 0 + real_of_int (int n) * 1) = int n" for n
    by (rule convert_int_identity)
  have e: "(8::int) AND - 2 = 8" "(0::int) AND - 2 = 0" "(2::int) AND - 2 = 2"
    by (simp_all add: even_and_minus_2)
  show "ScaleConvert_NV12_I420 src (image_config 4 2) (image_config 4 2) identity_rect (0, 2)
     = [((Plane_Y, 8), src 8), ((Plane_U, 2), src 12), ((Plane_V, 2), src 13)]"
    unfolding ScaleConvert_NV12_I420_def Let_def image_config_nth identity_rect_nth fst_conv
      snd_conv c mad24_def
    by (simp add: float_to_uchar_of_uchar e c_div_def)
qed

end
